theory Spec2Isabelle
  imports Main
begin

section \<open>The flashing worker (class ESPWorker)\<close>

text \<open>
  The worker's fields, as the constructor sets them. \<open>continue_flag\<close> is the worker's own
  flag (initially True); the flag of the flashing library (\<open>esptool.sw\<close>) is process-wide
  and lives in the process state below.
\<close>

record ESPWorker =
  port :: string
  bin_file :: string
  backup :: bool
  erase :: bool
  verify :: bool
  continue_flag :: bool

text \<open>
  What the worker does that others can see, in the order it happens: calls of
  \<open>esptool.sw.setContinueFlag\<close>, the three signals of the worker, calls of
  \<open>esptool.main\<close> with their argument list, and the \<open>print(command)\<close> before the write.
\<close>

datatype event =
    SetContinueFlag bool
  | BackupStart
  | EsptoolMain "string list"
  | Print "string list"
  | PortError string
  | Finished

text \<open>
  The process state: the worker, the library's process-wide continue flag and the events
  so far (oldest first).
\<close>

record process =
  worker :: ESPWorker
  sw_continue :: bool
  events :: "event list"

text \<open>
  How a call of \<open>esptool.main\<close> ends: it returns, it raises one of the two exceptions
  that \<open>execute\<close> catches (with the text \<open>"{}".format(e)\<close> gives), or it raises any other
  exception, which \<open>execute\<close> lets through.
\<close>

datatype outcome =
    Returns
  | FatalError string
  | SerialException string
  | OtherException string

text \<open>
  The flashing library is not part of the worker: \<open>esptool.main\<close> is a parameter. For a
  command it gives how the call ends and whether the user interface thread ran the
  worker's \<open>stop\<close> while the call was in progress (the worker runs on a thread of its own
  and \<open>abort\<close>/\<open>accept\<close> call \<open>stop\<close> directly).
\<close>

type_synonym esptool = "string list \<Rightarrow> outcome \<times> bool"

datatype status = Completed | Propagated string

definition emit :: "event \<Rightarrow> process \<Rightarrow> process" where
  "emit e p = p\<lparr>events := events p @ [e]\<rparr>"

text \<open>
  Modelled from the spec: \<open>esptool.sw.setContinueFlag\<close> belongs to the module
  \<open>tasmotizer_esptool\<close>, which is not among the sources; it stores its argument in the
  library's process-wide continue flag. The call itself is recorded as an event.
\<close>

definition setContinueFlag :: "bool \<Rightarrow> process \<Rightarrow> process" where
  "setContinueFlag b p = emit (SetContinueFlag b) (p\<lparr>sw_continue := b\<rparr>)"

text \<open>\<open>ESPWorker.stop\<close>: clears the worker's flag, then the library's.\<close>

definition stop :: "process \<Rightarrow> process" where
  "stop p = setContinueFlag False (p\<lparr>worker := (worker p)\<lparr>continue_flag := False\<rparr>\<rparr>)"

text \<open>A call of \<open>esptool.main(command)\<close> from the worker.\<close>

definition call_main :: "esptool \<Rightarrow> string list \<Rightarrow> process \<Rightarrow> outcome \<times> process" where
  "call_main main command p =
     (let p1 = emit (EsptoolMain command) p
      in (fst (main command), if snd (main command) then stop p1 else p1))"

subsection \<open>The time stamp of the backup file\<close>

record datetime =
  year :: nat
  month :: nat
  day :: nat
  hour :: nat
  minute :: nat
  second :: nat

definition valid_datetime :: "datetime \<Rightarrow> bool" where
  "valid_datetime t =
     (1 \<le> year t \<and> year t \<le> 9999 \<and> 1 \<le> month t \<and> month t \<le> 12 \<and> 1 \<le> day t \<and> day t \<le> 31
      \<and> hour t < 24 \<and> minute t < 60 \<and> second t < 60)"

definition digit :: "nat \<Rightarrow> char" where
  "digit d = char_of (48 + d)"

fun dec :: "nat \<Rightarrow> string" where
  "dec n = (if n < 10 then [digit n] else dec (n div 10) @ [digit (n mod 10)])"

declare dec.simps [simp del]

definition zfill :: "nat \<Rightarrow> string \<Rightarrow> string" where
  "zfill w s = replicate (w - length s) (CHR ''0'') @ s"

text \<open>
  \<open>strftime("%Y%m%d_%H%M%S")\<close>. The month, day, hour, minute and second are padded to two
  digits. The year is written by the platform's C library: glibc writes it as it is,
  without padding, so a year below 1000 has fewer than four digits.
\<close>

definition strftime :: "datetime \<Rightarrow> string" where
  "strftime t =
     dec (year t) @ zfill 2 (dec (month t)) @ zfill 2 (dec (day t)) @ ''_''
     @ zfill 2 (dec (hour t)) @ zfill 2 (dec (minute t)) @ zfill 2 (dec (second t))"

text \<open>Reading a time stamp back: the decimal digits, and the number they write.\<close>

definition is_digit_char :: "char \<Rightarrow> bool" where
  "is_digit_char c = (48 \<le> (of_char c :: nat) \<and> (of_char c :: nat) \<le> 57)"

definition read_dec :: "string \<Rightarrow> nat" where
  "read_dec s = foldl (\<lambda>a c. 10 * a + (of_char c - 48)) 0 s"

subsection \<open>\<open>ESPWorker.execute\<close>\<close>

definition command_base :: "ESPWorker \<Rightarrow> string list" where
  "command_base self = [''--chip'', ''esp8266'', ''--port'', port self, ''--baud'', ''115200'']"

definition command_backup :: "datetime \<Rightarrow> string list" where
  "command_backup now =
     [''--after'', ''no_reset'', ''read_flash'', ''0x00000'', ''0x100000'',
      ''backup_'' @ strftime now @ ''.bin'']"

definition command_write :: "ESPWorker \<Rightarrow> string list" where
  "command_write self =
     [''--after'', ''soft_reset'', ''write_flash'', ''--flash_mode'', ''dout'',
      ''--flash_size'', ''1MB'', ''0x00000'', bin_file self]"

text \<open>
  The first \<open>if\<close> of \<open>execute\<close>: the backup, when it is asked for and the worker's flag is
  set. A caught exception is reported by \<open>port_error\<close> and the block ends normally.
\<close>

definition backup_block :: "esptool \<Rightarrow> datetime \<Rightarrow> process \<Rightarrow> status \<times> process" where
  "backup_block main now p =
     (if backup (worker p) \<and> continue_flag (worker p) then
        (let command = command_base (worker p) @ command_backup now;
             p1 = emit BackupStart p;
             r = call_main main command p1
         in case fst r of
              Returns \<Rightarrow> (Completed, snd r)
            | FatalError e \<Rightarrow> (Completed, emit (PortError e) (snd r))
            | SerialException e \<Rightarrow> (Completed, emit (PortError e) (snd r))
            | OtherException e \<Rightarrow> (Propagated e, snd r))
      else (Completed, p))"

text \<open>The second \<open>if\<close> of \<open>execute\<close>: the write, when the worker's flag is set.\<close>

definition write_block :: "esptool \<Rightarrow> process \<Rightarrow> status \<times> process" where
  "write_block main p =
     (if continue_flag (worker p) then
        (let command = command_base (worker p) @ command_write (worker p)
               @ (if erase (worker p) then [''--erase-all''] else [])
               @ (if verify (worker p) then [''verify''] else []);
             p1 = emit (Print command) p;
             r = call_main main command p1
         in case fst r of
              Returns \<Rightarrow> (Completed, emit Finished (snd r))
            | FatalError e \<Rightarrow> (Completed, emit (PortError e) (snd r))
            | SerialException e \<Rightarrow> (Completed, emit (PortError e) (snd r))
            | OtherException e \<Rightarrow> (Propagated e, snd r))
      else (Completed, p))"

definition execute :: "esptool \<Rightarrow> datetime \<Rightarrow> process \<Rightarrow> status \<times> process" where
  "execute main now p =
     (let r = backup_block main now (setContinueFlag True p)
      in case fst r of
           Propagated e \<Rightarrow> (Propagated e, snd r)
         | Completed \<Rightarrow> write_block main (snd r))"

text \<open>What an observer reads off the events.\<close>

definition main_calls :: "event list \<Rightarrow> string list list" where
  "main_calls es = concat (map (\<lambda>e. case e of EsptoolMain c \<Rightarrow> [c] | _ \<Rightarrow> []) es)"

definition is_terminal :: "event \<Rightarrow> bool" where
  "is_terminal e = (case e of Finished \<Rightarrow> True | PortError m \<Rightarrow> True | _ \<Rightarrow> False)"

definition terminal_events :: "event list \<Rightarrow> event list" where
  "terminal_events es = filter is_terminal es"



text \<open>
  The argument list of the write call, and when the write call is reached: the worker's
  flag must still be set after the backup block, and the backup call must not have let an
  exception through.
\<close>

definition write_args :: "ESPWorker \<Rightarrow> string list" where
  "write_args self =
     command_base self @ command_write self
     @ (if erase self then [''--erase-all''] else [])
     @ (if verify self then [''verify''] else [])"

definition write_reached :: "esptool \<Rightarrow> datetime \<Rightarrow> ESPWorker \<Rightarrow> bool" where
  "write_reached main now self =
     (if backup self \<and> continue_flag self
      then (case main (command_base self @ command_backup now) of
              (OtherException e, stopped) \<Rightarrow> False
            | (r, stopped) \<Rightarrow> \<not> stopped)
      else continue_flag self)"

text \<open>A worker as \<open>run_esptool\<close> constructs it, in a process with no events yet.\<close>

definition new_worker :: "string \<Rightarrow> string \<Rightarrow> bool \<Rightarrow> bool \<Rightarrow> bool \<Rightarrow> ESPWorker" where
  "new_worker prt file bk er vf =
     \<lparr>port = prt, bin_file = file, backup = bk, erase = er, verify = vf, continue_flag = True\<rparr>"

definition fresh :: "ESPWorker \<Rightarrow> bool \<Rightarrow> process" where
  "fresh w sw = \<lparr>worker = w, sw_continue = sw, events = []\<rparr>"

section \<open>The flashing dialog (class FlashingDialog)\<close>

datatype py_error = AttributeError | ZeroDivisionError

datatype dialog_code = Rejected | Accepted

text \<open>
  The calls a dialog makes on its worker and on the worker's thread, in order:
  \<open>espworker.stop()\<close>, \<open>espthread.quit()\<close> and \<open>espthread.wait(ms)\<close>.
\<close>

datatype teardown_call = WorkerStop | ThreadQuit | ThreadWait nat

text \<open>
  The dialog's attributes that the exit paths use. \<open>espworker\<close> is the worker together with
  the process it runs in; the attribute does not exist before \<open>run_esptool\<close> has run
  (with a downloaded image, that is after the download has finished), which is \<open>None\<close>
  here. \<open>error_msg\<close> is \<open>None\<close> in the constructor. \<open>result\<close> is the code the dialog was
  closed with, if it was closed.
\<close>

record FlashingDialog =
  espworker :: "process option"
  calls :: "teardown_call list"
  error_msg :: "string option"
  result :: "dialog_code option"

definition done_code :: "dialog_code \<Rightarrow> FlashingDialog \<Rightarrow> FlashingDialog" where
  "done_code r d = d\<lparr>result := Some r\<rparr>"

definition reject :: "FlashingDialog \<Rightarrow> FlashingDialog" where
  "reject d = done_code Rejected d"

text \<open>
  The three calls that \<open>abort\<close> and \<open>accept\<close> open with. Reading \<open>self.espworker\<close> raises
  AttributeError while the attribute does not exist.
\<close>

definition stop_quit_wait :: "FlashingDialog \<Rightarrow> py_error + FlashingDialog" where
  "stop_quit_wait d =
     (case espworker d of
        None \<Rightarrow> Inl AttributeError
      | Some p \<Rightarrow>
          Inr (d\<lparr>espworker := Some (stop p),
                 calls := calls d @ [WorkerStop, ThreadQuit, ThreadWait 2000]\<rparr>))"

definition abort :: "FlashingDialog \<Rightarrow> py_error + FlashingDialog" where
  "abort d = (case stop_quit_wait d of Inl e \<Rightarrow> Inl e | Inr d1 \<Rightarrow> Inr (reject d1))"

definition error :: "string \<Rightarrow> FlashingDialog \<Rightarrow> FlashingDialog" where
  "error e d = reject (d\<lparr>error_msg := Some e\<rparr>)"

definition accept :: "FlashingDialog \<Rightarrow> py_error + FlashingDialog" where
  "accept d = (case stop_quit_wait d of Inl e \<Rightarrow> Inl e | Inr d1 \<Rightarrow> Inr (done_code Accepted d1))"

text \<open>The dialog as its constructor leaves it, without and with a worker.\<close>

definition downloading :: FlashingDialog where
  "downloading = \<lparr>espworker = None, calls = [], error_msg = None, result = None\<rparr>"

definition run_esptool :: "ESPWorker \<Rightarrow> bool \<Rightarrow> FlashingDialog \<Rightarrow> FlashingDialog" where
  "run_esptool w sw d = d\<lparr>espworker := Some (fresh w sw)\<rparr>"

text \<open>
  \<open>updateBinProgress(recv, total)\<close>: the value handed to the progress bar, \<open>recv//total*100\<close>.
  Python's \<open>//\<close> rounds down, as \<open>div\<close> on \<open>int\<close> does, and raises on a zero divisor.
\<close>

definition updateBinProgress :: "int \<Rightarrow> int \<Rightarrow> py_error + int" where
  "updateBinProgress recv total' =
     (if total' = 0 then Inl ZeroDivisionError else Inr (recv div total' * 100))"

section \<open>The main window (class Tasmotizer)\<close>

subsection \<open>\<open>start_process\<close>: what the user is shown\<close>

datatype message_box = Information string string | Critical string string

text \<open>
  \<open>start_process\<close> from the mode, the text of the file field and the dialog as \<open>exec_\<close>
  left it. \<open>if dlg.error_msg:\<close> is Python's truth test: \<open>None\<close> and the empty string
  are both false.
\<close>

definition start_process :: "nat \<Rightarrow> string \<Rightarrow> FlashingDialog \<Rightarrow> message_box" where
  "start_process mode file dlg =
     (if mode = 0 \<and> length file = 0 then
        Information ''Nothing to do...''
          ''Select a local BIN file or select which one to download.''
      else if result dlg = Some Accepted then
        Information ''Done'' ''Flashing successful! Power cycle the device.''
      else
        (case error_msg dlg of
           None \<Rightarrow>
             Critical ''Flashing aborted'' ''Flashing process has been aborted by the user.''
         | Some e \<Rightarrow>
             if e = [] then
               Critical ''Flashing aborted'' ''Flashing process has been aborted by the user.''
             else Critical ''Error'' e))"

subsection \<open>\<open>showCurrentIP\<close>: the device's address in its boot log\<close>

text \<open>
  Bytes are \<open>char\<close>s; decoded text is a list of code points. \<open>str(b, 'utf8')\<close> decodes
  strictly: a byte sequence that is not well-formed UTF-8 raises.
\<close>

definition second_lo :: "nat \<Rightarrow> nat" where
  "second_lo b0 = (if b0 = 224 then 160 else if b0 = 240 then 144 else 128)"

definition second_hi :: "nat \<Rightarrow> nat" where
  "second_hi b0 = (if b0 = 237 then 160 else if b0 = 244 then 144 else 192)"

definition continuation :: "nat \<Rightarrow> bool" where
  "continuation b = (128 \<le> b \<and> b < 192)"

fun utf8_decode :: "nat list \<Rightarrow> nat list option" where
  "utf8_decode [] = Some []"
| "utf8_decode (b0 # bs) =
     (if b0 < 128 then map_option ((#) b0) (utf8_decode bs)
      else if 194 \<le> b0 \<and> b0 < 224 then
        (case bs of
           b1 # r \<Rightarrow>
             if continuation b1
             then map_option ((#) ((b0 - 192) * 64 + (b1 - 128))) (utf8_decode r)
             else None
         | _ \<Rightarrow> None)
      else if 224 \<le> b0 \<and> b0 < 240 then
        (case bs of
           b1 # b2 # r \<Rightarrow>
             if second_lo b0 \<le> b1 \<and> b1 < second_hi b0 \<and> continuation b2
             then map_option ((#) ((b0 - 224) * 4096 + (b1 - 128) * 64 + (b2 - 128)))
                    (utf8_decode r)
             else None
         | _ \<Rightarrow> None)
      else if 240 \<le> b0 \<and> b0 < 245 then
        (case bs of
           b1 # b2 # b3 # r \<Rightarrow>
             if second_lo b0 \<le> b1 \<and> b1 < second_hi b0 \<and> continuation b2 \<and> continuation b3
             then map_option
                    ((#) ((b0 - 240) * 262144 + (b1 - 128) * 4096 + (b2 - 128) * 64 + (b3 - 128)))
                    (utf8_decode r)
             else None
         | _ \<Rightarrow> None)
      else None)"

text \<open>\<open>.replace("\r\n", "")\<close>: every CR LF pair goes, from the left.\<close>

fun replace_crlf :: "nat list \<Rightarrow> nat list" where
  "replace_crlf (a # b # cs) =
     (if a = 13 \<and> b = 10 then replace_crlf cs else a # replace_crlf (b # cs))"
| "replace_crlf cs = cs"

text \<open>
  The pattern is a sequence of items \<open>atom{lo,hi}\<close>; a literal character is \<open>{1,1}\<close>.
  In a pattern on \<open>str\<close>, \<open>\d\<close> matches every Unicode decimal digit: the ASCII digits and
  the decimal digits beyond ASCII of the runtime's Unicode table, which is the parameter
  \<open>nd\<close>.
\<close>

datatype atom = Lit nat | Digit

type_synonym item = "atom \<times> nat \<times> nat"

definition is_decimal :: "(nat \<Rightarrow> bool) \<Rightarrow> nat \<Rightarrow> bool" where
  "is_decimal nd c = ((48 \<le> c \<and> c \<le> 57) \<or> (128 \<le> c \<and> nd c))"

definition atom_ok :: "(nat \<Rightarrow> bool) \<Rightarrow> atom \<Rightarrow> nat \<Rightarrow> bool" where
  "atom_ok nd a c = (case a of Lit l \<Rightarrow> c = l | Digit \<Rightarrow> is_decimal nd c)"

fun first_some :: "'a option list \<Rightarrow> 'a option" where
  "first_some [] = None"
| "first_some (Some x # xs) = Some x"
| "first_some (None # xs) = first_some xs"

text \<open>
  Matching at the start of the text, as a backtracking matcher does: a repetition takes
  as many characters as it can (at most \<open>hi\<close>) and gives them back one at a time (down to
  \<open>lo\<close>) until the rest of the pattern matches. The result is the matched text.
\<close>

fun match_here :: "(nat \<Rightarrow> bool) \<Rightarrow> item list \<Rightarrow> nat list \<Rightarrow> nat list option" where
  "match_here nd [] txt = Some []"
| "match_here nd ((a, lo, hi) # items) txt =
     first_some
       (map (\<lambda>k. if k \<le> length txt \<and> list_all (atom_ok nd a) (take k txt)
                 then map_option ((@) (take k txt)) (match_here nd items (drop k txt))
                 else None)
            (rev [lo..<Suc hi]))"

text \<open>\<open>re.search\<close>: the match at the leftmost position that has one.\<close>

fun re_search :: "(nat \<Rightarrow> bool) \<Rightarrow> item list \<Rightarrow> nat list \<Rightarrow> nat list option" where
  "re_search nd pat [] = match_here nd pat []"
| "re_search nd pat (c # cs) =
     (case match_here nd pat (c # cs) of
        Some m \<Rightarrow> Some m
      | None \<Rightarrow> re_search nd pat cs)"

definition code_points :: "string \<Rightarrow> nat list" where
  "code_points s = map of_char s"

text \<open>
  The pattern \<open>IP address (?P<ip>\d{1,3}\.\d{1,3}\.\d{1,3}\.\d{1,3})\<close>: the literal part,
  then the group \<open>ip\<close>.
\<close>

definition rx_literal :: "item list" where
  "rx_literal = map (\<lambda>c. (Lit c, 1, 1)) (code_points ''IP address '')"

definition rx_ip :: "item list" where
  "rx_ip = [(Digit, 1, 3), (Lit 46, 1, 1), (Digit, 1, 3), (Lit 46, 1, 1),
            (Digit, 1, 3), (Lit 46, 1, 1), (Digit, 1, 3)]"

text \<open>
  The attributes \<open>showCurrentIP\<close> uses: the bytes kept from earlier reads, whether the
  serial port is open, and the message of the status bar (as code points), if the
  function has set one.
\<close>

record Tasmotizer =
  previous_reply :: string
  port_is_open :: bool
  sb :: "nat list option"

text \<open>
  \<open>showCurrentIP\<close> with the bytes \<open>readAll\<close> returned (a byte array is taken for the
  bytes it holds). The bare \<open>except\<close> swallows the decoding error, and then nothing
  changes.
\<close>

definition showCurrentIP :: "(nat \<Rightarrow> bool) \<Rightarrow> string \<Rightarrow> Tasmotizer \<Rightarrow> Tasmotizer" where
  "showCurrentIP nd current_reply self =
     (case utf8_decode (map of_char (previous_reply self @ current_reply)) of
        None \<Rightarrow> self
      | Some txt \<Rightarrow>
          (case re_search nd (rx_literal @ rx_ip) (replace_crlf txt) of
             Some m \<Rightarrow>
               self\<lparr>port_is_open := False,
                    sb := Some (code_points ''Device IP: '' @ drop (length rx_literal) m)\<rparr>
           | None \<Rightarrow> self\<lparr>previous_reply := current_reply\<rparr>))"

text \<open>
  The port signals \<open>readyRead\<close> for each chunk that arrives while it is open; a closed
  port signals nothing.
\<close>

fun listen :: "(nat \<Rightarrow> bool) \<Rightarrow> string list \<Rightarrow> Tasmotizer \<Rightarrow> Tasmotizer" where
  "listen nd [] self = self"
| "listen nd (chunk # chunks) self =
     (if port_is_open self then listen nd chunks (showCurrentIP nd chunk self) else self)"

text \<open>The window as its constructor leaves it, once the port has been opened.\<close>

definition listening :: Tasmotizer where
  "listening = \<lparr>previous_reply = [], port_is_open = True, sb = None\<rparr>"

text \<open>
  The texts of the pattern: those that the items match one after the other, each item
  on between \<open>lo\<close> and \<open>hi\<close> characters of its atom.
\<close>

fun matches :: "(nat \<Rightarrow> bool) \<Rightarrow> item list \<Rightarrow> nat list \<Rightarrow> bool" where
  "matches nd [] m = (m = [])"
| "matches nd ((a, lo, hi) # items) m =
     list_ex (\<lambda>k. k \<le> length m \<and> list_all (atom_ok nd a) (take k m)
                  \<and> matches nd items (drop k m))
             [lo..<Suc hi]"

text \<open>
  Patterns that leave the matcher no choice but in their last item: every other item has a
  fixed count, or is followed by an item that takes at least one character of an atom
  which shares no character with its own.
\<close>

fun disjoint_atoms :: "(nat \<Rightarrow> bool) \<Rightarrow> atom \<Rightarrow> atom \<Rightarrow> bool" where
  "disjoint_atoms nd (Lit x) (Lit y) = (x \<noteq> y)"
| "disjoint_atoms nd (Lit x) Digit = (\<not> is_decimal nd x)"
| "disjoint_atoms nd Digit (Lit y) = (\<not> is_decimal nd y)"
| "disjoint_atoms nd Digit Digit = False"

fun forced :: "(nat \<Rightarrow> bool) \<Rightarrow> item list \<Rightarrow> bool" where
  "forced nd ((a, lo, hi) # (b, lo', hi') # items) =
     ((lo = hi \<or> (1 \<le> lo' \<and> disjoint_atoms nd a b)) \<and> forced nd ((b, lo', hi') # items))"
| "forced nd items = True"

text \<open>
  An occurrence of the pattern in a text: the literal part and then a text of the group's
  pattern, between whatever comes before and after. A group of the address is one to three
  decimal digits.
\<close>

definition occurs :: "(nat \<Rightarrow> bool) \<Rightarrow> nat list \<Rightarrow> nat list \<Rightarrow> nat list \<Rightarrow> nat list \<Rightarrow> bool" where
  "occurs nd t pre ip post =
     (t = pre @ code_points ''IP address '' @ ip @ post \<and> matches nd rx_ip ip)"

definition ip_group :: "(nat \<Rightarrow> bool) \<Rightarrow> nat list \<Rightarrow> bool" where
  "ip_group nd g = (1 \<le> length g \<and> length g \<le> 3 \<and> list_all (is_decimal nd) g)"

section \<open>Example inputs\<close>

text \<open>
  A worker on \<open>/dev/ttyUSB0\<close> flashing \<open>fw.bin\<close> with backup and erase, an instant, a
  flashing library whose calls all return, and one whose \<open>read_flash\<close> raises
  \<open>FatalError("timeout")\<close> while every other call returns; in both the user never asks
  to stop. \<open>no_digits\<close> stands in for the decimal digits beyond ASCII; the example
  texts below are ASCII, so the matcher never consults it on them.
\<close>

definition w0 :: ESPWorker where
  "w0 = new_worker ''/dev/ttyUSB0'' ''fw.bin'' True True False"

definition t0 :: datetime where
  "t0 = \<lparr>year = 2026, month = 11, day = 3, hour = 19, minute = 35, second = 7\<rparr>"

definition all_return :: esptool where
  "all_return command = (Returns, False)"

definition backup_fails :: esptool where
  "backup_fails command =
     (if List.member command ''read_flash'' then (FatalError ''timeout'', False)
      else (Returns, False))"


definition no_digits :: "nat \<Rightarrow> bool" where
  "no_digits c = False"

text \<open>
  The window after a first read of \<open>IP addr\<close>, which has no match and is kept, and the
  chunk that arrives next.
\<close>

definition one_chunk_read :: Tasmotizer where
  "one_chunk_read = \<lparr>previous_reply = ''IP addr'', port_is_open = True, sb = None\<rparr>"

definition next_chunk :: string where
  "next_chunk = ''ess 192.168.1.123'' @ [CHR 13, CHR 10]"

section \<open>Properties of the worker\<close>

subsection \<open>Projections\<close>

lemma emit_simps:
  "worker (emit e p) = worker p"
  "sw_continue (emit e p) = sw_continue p"
  "events (emit e p) = events p @ [e]"
  by (simp_all add: emit_def)

lemma setContinueFlag_simps:
  "worker (setContinueFlag b p) = worker p"
  "sw_continue (setContinueFlag b p) = b"
  "events (setContinueFlag b p) = events p @ [SetContinueFlag b]"
  by (simp_all add: setContinueFlag_def emit_def)

lemma stop_simps:
  "worker (stop p) = (worker p)\<lparr>continue_flag := False\<rparr>"
  "sw_continue (stop p) = False"
  "events (stop p) = events p @ [SetContinueFlag False]"
  by (simp_all add: stop_def setContinueFlag_def emit_def)

lemma fresh_simps:
  "worker (fresh w sw) = w"
  "sw_continue (fresh w sw) = sw"
  "events (fresh w sw) = []"
  by (simp_all add: fresh_def)



lemma main_calls_append: "main_calls (xs @ ys) = main_calls xs @ main_calls ys"
  by (simp add: main_calls_def)

lemma main_calls_simps:
  "main_calls [] = []"
  "main_calls (SetContinueFlag b # es) = main_calls es"
  "main_calls (BackupStart # es) = main_calls es"
  "main_calls (EsptoolMain c # es) = c # main_calls es"
  "main_calls (Print c # es) = main_calls es"
  "main_calls (PortError m # es) = main_calls es"
  "main_calls (Finished # es) = main_calls es"
  by (simp_all add: main_calls_def)

lemmas worker_defs = execute_def backup_block_def write_block_def call_main_def stop_def
  setContinueFlag_def emit_def Let_def

lemmas example_defs = command_base_def command_backup_def command_write_def backup_fails_def
  all_return_def fresh_def w0_def new_worker_def

lemma strftime_t0: "strftime t0 = ''20261103_193507''"
  by code_simp

subsection \<open>A run in which the user does not ask to stop\<close>





subsection \<open>The calls of a run, and how it ends\<close>

lemma call_main_simps:
  "fst (call_main main c p) = fst (main c)"
  "worker (snd (call_main main c p)) =
     (if snd (main c) then (worker p)\<lparr>continue_flag := False\<rparr> else worker p)"
  "main_calls (events (snd (call_main main c p))) = main_calls (events p) @ [c]"
  by (simp_all add: call_main_def Let_def emit_simps stop_simps main_calls_append main_calls_simps)

lemma backup_block_status:
  "fst (backup_block main now p) =
     (if backup (worker p) \<and> continue_flag (worker p)
      then (case fst (main (command_base (worker p) @ command_backup now)) of
              OtherException e \<Rightarrow> Propagated e | _ \<Rightarrow> Completed)
      else Completed)"
  by (simp add: backup_block_def Let_def call_main_simps split: outcome.split)

lemma backup_block_worker:
  "worker (snd (backup_block main now p)) =
     (if backup (worker p) \<and> continue_flag (worker p)
         \<and> snd (main (command_base (worker p) @ command_backup now))
      then (worker p)\<lparr>continue_flag := False\<rparr> else worker p)"
  by (simp add: backup_block_def Let_def call_main_simps emit_simps split: outcome.split)

lemma backup_block_calls:
  "main_calls (events (snd (backup_block main now p))) =
     main_calls (events p)
     @ (if backup (worker p) \<and> continue_flag (worker p)
        then [command_base (worker p) @ command_backup now] else [])"
  by (simp add: backup_block_def Let_def call_main_simps emit_simps main_calls_append
      main_calls_simps split: outcome.split)


lemma write_block_calls:
  "main_calls (events (snd (write_block main p))) =
     main_calls (events p) @ (if continue_flag (worker p) then [write_args (worker p)] else [])"
  by (simp add: write_block_def write_args_def Let_def call_main_simps emit_simps
      main_calls_append main_calls_simps split: outcome.split)


lemma execute_calls:
  "main_calls (events (snd (execute main now p))) =
     main_calls (events p)
     @ (if backup (worker p) \<and> continue_flag (worker p)
        then [command_base (worker p) @ command_backup now] else [])
     @ (if write_reached main now (worker p) then [write_args (worker p)] else [])"
proof (cases "main (command_base (worker p) @ command_backup now)")
  case (Pair r stopped)
  then show ?thesis
    by (cases r)
      (simp_all add: execute_def Let_def backup_block_status backup_block_worker
        backup_block_calls write_block_calls setContinueFlag_simps write_reached_def
        write_args_def main_calls_append main_calls_simps)
qed


subsection \<open>The flag writes of a run\<close>



lemma call_main_trace:
  "events (snd (call_main main c p)) =
     events p @ EsptoolMain c # (if snd (main c) then [SetContinueFlag False] else [])"
  "worker (snd (call_main main c p)) =
     (worker p)\<lparr>continue_flag := continue_flag (worker p) \<and> \<not> snd (main c)\<rparr>"
  "sw_continue (snd (call_main main c p)) = (sw_continue p \<and> \<not> snd (main c))"
  by (simp_all add: call_main_def Let_def emit_simps stop_simps)



subsection \<open>A failed backup\<close>

text \<open>
  C1. The claim: with \<open>doBackup\<close> set, a backup whose driver call fails keeps the write
  from ever being invoked. The worker does otherwise: with backup asked for and the
  \<open>read_flash\<close> call raising \<open>FatalError("timeout")\<close>, the exception is caught and
  reported, and \<open>execute\<close> goes on to call \<open>esptool.main\<close> with the \<open>write_flash\<close>
  command.
\<close>

theorem failed_backup_is_followed_by_write:
  "main_calls (events (snd (execute backup_fails t0 (fresh w0 True)))) =
     [[''--chip'', ''esp8266'', ''--port'', ''/dev/ttyUSB0'', ''--baud'', ''115200'',
       ''--after'', ''no_reset'', ''read_flash'', ''0x00000'', ''0x100000'',
       ''backup_20261103_193507.bin''],
      [''--chip'', ''esp8266'', ''--port'', ''/dev/ttyUSB0'', ''--baud'', ''115200'',
       ''--after'', ''soft_reset'', ''write_flash'', ''--flash_mode'', ''dout'',
       ''--flash_size'', ''1MB'', ''0x00000'', ''fw.bin'', ''--erase-all'']]"
  by (simp add: worker_defs example_defs main_calls_def strftime_t0)

text \<open>
  C2. The claim: a run emits exactly one terminal signal, and a run whose backup fails
  emits no further success or failure signal. In the same run as above the worker emits
  \<open>port_error("timeout")\<close> for the backup and then \<open>finished\<close> for the write.
\<close>

theorem failed_backup_two_terminal_signals:
  "terminal_events (events (snd (execute backup_fails t0 (fresh w0 True)))) =
     [PortError ''timeout'', Finished]"
  by (simp add: worker_defs example_defs terminal_events_def is_terminal_def)

subsection \<open>Who writes the continue flag\<close>




subsection \<open>Running a worker twice\<close>




subsection \<open>The commands and the backup file's name\<close>

lemma of_char_digit: "d < 10 \<Longrightarrow> (of_char (digit d) :: nat) = 48 + d"
  by (simp add: digit_def)

lemma is_digit_char_digit: "d < 10 \<Longrightarrow> is_digit_char (digit d)"
  by (simp add: is_digit_char_def of_char_digit)

lemma dec_digits: "list_all is_digit_char (dec n)"
proof (induction n rule: dec.induct)
  case (1 n)
  show ?case
  proof (cases "n < 10")
    case True
    then show ?thesis by (simp add: dec.simps [of n] is_digit_char_digit)
  next
    case False
    then show ?thesis using 1 by (simp add: dec.simps [of n] is_digit_char_digit)
  qed
qed

lemma read_dec_snoc: "read_dec (s @ [c]) = 10 * read_dec s + (of_char c - 48)"
  by (simp add: read_dec_def)

lemma read_dec_dec: "read_dec (dec n) = n"
proof (induction n rule: dec.induct)
  case (1 n)
  show ?case
  proof (cases "n < 10")
    case True
    then show ?thesis by (simp add: dec.simps [of n] read_dec_def of_char_digit)
  next
    case False
    then have "read_dec (dec n) = 10 * (n div 10) + n mod 10"
      using 1 by (simp add: dec.simps [of n] read_dec_snoc of_char_digit)
    then show ?thesis by simp
  qed
qed

lemma read_dec_zeros: "read_dec (replicate k (CHR ''0'') @ s) = read_dec s"
proof -
  have "foldl (\<lambda>a c. 10 * a + (of_char c - 48)) (0::nat) (replicate k (CHR ''0'')) = 0"
    by (induction k) simp_all
  then show ?thesis by (simp add: read_dec_def)
qed

lemma read_dec_zfill: "read_dec (zfill w (dec n)) = n"
  by (simp add: zfill_def read_dec_zeros read_dec_dec)

lemma zfill_digits: "list_all is_digit_char (zfill w (dec n))"
proof -
  have "list_all is_digit_char (replicate k (CHR ''0''))" for k
    by (induction k) (simp_all add: is_digit_char_def)
  then show ?thesis by (simp add: zfill_def dec_digits)
qed

lemma length_dec: "n < 10 ^ Suc k \<Longrightarrow> length (dec n) \<le> Suc k"
proof (induction k arbitrary: n)
  case 0
  then show ?case by (simp add: dec.simps [of n])
next
  case (Suc k)
  show ?case
  proof (cases "n < 10")
    case True
    then show ?thesis by (simp add: dec.simps [of n])
  next
    case False
    have "n div 10 < 10 ^ Suc k"
      using Suc.prems by (simp add: less_mult_imp_div_less mult.commute)
    then have "length (dec (n div 10)) \<le> Suc k"
      by (rule Suc.IH)
    then show ?thesis using False by (simp add: dec.simps [of n])
  qed
qed

lemma length_dec_2: "n < 100 \<Longrightarrow> length (dec n) \<le> 2"
  using length_dec [of n 1] by simp

lemma length_dec_ge: "10 ^ k \<le> n \<Longrightarrow> Suc k \<le> length (dec n)"
proof (induction k arbitrary: n)
  case 0
  then show ?case by (simp add: dec.simps [of n])
next
  case (Suc k)
  have "(10::nat) \<le> 10 ^ Suc k"
    by simp
  then have big: "\<not> n < 10"
    using Suc.prems by linarith
  have "10 ^ k \<le> n div 10"
    using Suc.prems by (simp add: less_eq_div_iff_mult_less_eq mult.commute)
  then have "Suc k \<le> length (dec (n div 10))"
    by (rule Suc.IH)
  then show ?case using big by (simp add: dec.simps [of n])
qed

lemma length_dec_4: "1000 \<le> n \<Longrightarrow> n < 10000 \<Longrightarrow> length (dec n) = 4"
  using length_dec [of n 3] length_dec_ge [of 3 n] by simp

lemma length_zfill: "length s \<le> w \<Longrightarrow> length (zfill w s) = w"
  by (simp add: zfill_def)

lemma strftime_shape:
  assumes "valid_datetime t" and "1000 \<le> year t"
  shows "length (strftime t) = 15"
    and "strftime t ! 8 = CHR ''_''"
    and "list_all is_digit_char (take 8 (strftime t))"
    and "list_all is_digit_char (drop 9 (strftime t))"
    and "read_dec (take 4 (strftime t)) = year t"
    and "read_dec (take 2 (drop 4 (strftime t))) = month t"
    and "read_dec (take 2 (drop 6 (strftime t))) = day t"
    and "read_dec (take 2 (drop 9 (strftime t))) = hour t"
    and "read_dec (take 2 (drop 11 (strftime t))) = minute t"
    and "read_dec (take 2 (drop 13 (strftime t))) = second t"
proof -
  have len: "length (dec (year t)) = 4" "length (zfill 2 (dec (month t))) = 2"
    "length (zfill 2 (dec (day t))) = 2" "length (zfill 2 (dec (hour t))) = 2"
    "length (zfill 2 (dec (minute t))) = 2" "length (zfill 2 (dec (second t))) = 2"
    using assms by (simp_all add: valid_datetime_def length_zfill length_dec_2 length_dec_4)
  show "length (strftime t) = 15"
    by (simp add: strftime_def len)
  show "strftime t ! 8 = CHR ''_''"
    by (simp add: strftime_def nth_append len)
  show "list_all is_digit_char (take 8 (strftime t))"
    by (simp add: strftime_def len zfill_digits dec_digits)
  show "list_all is_digit_char (drop 9 (strftime t))"
    by (simp add: strftime_def len zfill_digits)
  show "read_dec (take 4 (strftime t)) = year t"
    by (simp add: strftime_def len read_dec_dec)
  show "read_dec (take 2 (drop 4 (strftime t))) = month t"
    by (simp add: strftime_def len read_dec_zfill)
  show "read_dec (take 2 (drop 6 (strftime t))) = day t"
    by (simp add: strftime_def len read_dec_zfill)
  show "read_dec (take 2 (drop 9 (strftime t))) = hour t"
    by (simp add: strftime_def len read_dec_zfill)
  show "read_dec (take 2 (drop 11 (strftime t))) = minute t"
    by (simp add: strftime_def len read_dec_zfill)
  show "read_dec (take 2 (drop 13 (strftime t))) = second t"
    by (simp add: strftime_def len read_dec_zfill)
qed

text \<open>
  C9. The driver calls of a run of a newly made worker are the backup command, when
  backup is asked for and the worker's flag is set, and then the write command, when the
  write is reached. The backup command reads \<open>0x100000\<close> bytes from \<open>0x00000\<close> with
  \<open>--after no_reset\<close> into \<open>backup_<stamp>.bin\<close>, a name with no directory part; the write
  command writes at \<open>0x00000\<close> with flash mode \<open>dout\<close>, flash size \<open>1MB\<close> and
  \<open>--after soft_reset\<close>. For an instant in a four-digit year the stamp is fifteen
  characters, eight digits, \<open>_\<close> and six digits, and its digit groups read back as the
  year, month, day, hour, minute and second of the instant.
\<close>

theorem execute_wire_parameters:
  assumes "valid_datetime now" and "1000 \<le> year now"
  shows "main_calls (events (snd (execute main now (fresh w sw)))) =
      (if backup w \<and> continue_flag w
       then [[''--chip'', ''esp8266'', ''--port'', port w, ''--baud'', ''115200'',
              ''--after'', ''no_reset'', ''read_flash'', ''0x00000'', ''0x100000'',
              ''backup_'' @ strftime now @ ''.bin'']]
       else [])
      @ (if write_reached main now w
         then [[''--chip'', ''esp8266'', ''--port'', port w, ''--baud'', ''115200'',
                ''--after'', ''soft_reset'', ''write_flash'', ''--flash_mode'', ''dout'',
                ''--flash_size'', ''1MB'', ''0x00000'', bin_file w]
               @ (if erase w then [''--erase-all''] else [])
               @ (if verify w then [''verify''] else [])]
         else [])
    \<and> length (strftime now) = 15
    \<and> list_all is_digit_char (take 8 (strftime now))
    \<and> strftime now ! 8 = CHR ''_''
    \<and> list_all is_digit_char (drop 9 (strftime now))
    \<and> read_dec (take 4 (strftime now)) = year now
    \<and> read_dec (take 2 (drop 4 (strftime now))) = month now
    \<and> read_dec (take 2 (drop 6 (strftime now))) = day now
    \<and> read_dec (take 2 (drop 9 (strftime now))) = hour now
    \<and> read_dec (take 2 (drop 11 (strftime now))) = minute now
    \<and> read_dec (take 2 (drop 13 (strftime now))) = second now"
proof -
  have calls: "main_calls (events (snd (execute main now (fresh w sw)))) =
      (if backup w \<and> continue_flag w then [command_base w @ command_backup now] else [])
      @ (if write_reached main now w then [write_args w] else [])"
    by (simp add: execute_calls fresh_simps main_calls_simps)
  show ?thesis
    using strftime_shape [OF assms]
    by (simp add: calls command_base_def command_backup_def command_write_def write_args_def)
qed

theorem execute_wire_parameters_witness:
  "valid_datetime t0
   \<and> 1000 \<le> year t0
   \<and> main_calls (events (snd (execute all_return t0 (fresh w0 True)))) =
       [[''--chip'', ''esp8266'', ''--port'', ''/dev/ttyUSB0'', ''--baud'', ''115200'',
         ''--after'', ''no_reset'', ''read_flash'', ''0x00000'', ''0x100000'',
         ''backup_20261103_193507.bin''],
        [''--chip'', ''esp8266'', ''--port'', ''/dev/ttyUSB0'', ''--baud'', ''115200'',
         ''--after'', ''soft_reset'', ''write_flash'', ''--flash_mode'', ''dout'',
         ''--flash_size'', ''1MB'', ''0x00000'', ''fw.bin'', ''--erase-all'']]
   \<and> length (strftime t0) = 15
   \<and> read_dec (take 4 (strftime t0)) = 2026
   \<and> read_dec (take 2 (drop 13 (strftime t0))) = 7"
proof -
  have valid: "valid_datetime t0"
    by (simp add: valid_datetime_def t0_def)
  have four: "1000 \<le> year t0"
    by (simp add: t0_def)
  have reached: "write_reached all_return t0 w0"
    by (simp add: write_reached_def all_return_def w0_def new_worker_def)
  show ?thesis
    using valid four execute_wire_parameters [OF valid four, of all_return w0 True]
    by (simp add: reached strftime_t0) (simp add: w0_def new_worker_def t0_def)
qed

section \<open>Properties of the dialog and of the main window\<close>

lemmas dialog_defs = abort_def accept_def error_def stop_quit_wait_def reject_def done_code_def
  run_esptool_def downloading_def

text \<open>
  C5. The claim: the value reported is \<open>floor(recv*100/total)\<close> when \<open>total > 0\<close>, and no
  division by zero happens when the total is zero. \<open>updateBinProgress\<close> computes
  \<open>recv//total*100\<close>, that is \<open>(recv//total)*100\<close>: half way through a download of 100
  bytes it reports 0 (the claim: 50), and with a zero total the division raises
  ZeroDivisionError.
\<close>

theorem updateBinProgress_truncates_and_raises:
  "updateBinProgress 50 100 = Inr 0
   \<and> (50 * 100) div 100 = (50 :: int)
   \<and> updateBinProgress 0 0 = Inl ZeroDivisionError"
  by (simp add: updateBinProgress_def)

text \<open>
  C7. The claim: a failure is always shown as an error with its detail, and only a user's
  cancellation as aborted by the user, also when the error's text is empty. A
  \<open>port_error\<close> with the empty text stores \<open>""\<close> in \<open>error_msg\<close>, which
  \<open>if dlg.error_msg:\<close> takes for no error: \<open>start_process\<close> shows the very message box it
  shows after the user's \<open>abort\<close>.
\<close>

theorem empty_error_shown_as_user_abort:
  "start_process 0 ''fw.bin'' (error [] (run_esptool w0 True downloading)) =
     Critical ''Flashing aborted'' ''Flashing process has been aborted by the user.''
   \<and> map_sum id (start_process 0 ''fw.bin'') (abort (run_esptool w0 True downloading)) =
     Inr (Critical ''Flashing aborted'' ''Flashing process has been aborted by the user.'')
   \<and> start_process 0 ''fw.bin'' (error ''timeout'' (run_esptool w0 True downloading)) =
     Critical ''Error'' ''timeout''"
  by (simp add: start_process_def dialog_defs)

text \<open>
  C8. The claim: \<open>abort\<close> at any point of a run sets the cancellation token, waits for the
  worker and surfaces the aborted outcome. While the image is still being downloaded the
  dialog has no worker yet: \<open>abort\<close> raises AttributeError at \<open>self.espworker\<close> and neither
  sets a flag nor closes the dialog.
\<close>

theorem abort_while_downloading_raises:
  "abort downloading = Inl AttributeError"
  by (simp add: dialog_defs)

text \<open>
  \<open>accept\<close> (success) and \<open>abort\<close> (the user) perform the same teardown of an existing
  worker: \<open>stop()\<close>, \<open>quit()\<close>, \<open>wait(2000)\<close> in this order, with both continue flags
  cleared by \<open>stop\<close>; they differ only in the code the dialog closes with.
\<close>

lemma accept_and_abort_same_teardown:
  assumes "espworker d = Some p"
  shows "accept d = Inr (done_code Accepted
           (d\<lparr>espworker := Some (stop p),
               calls := calls d @ [WorkerStop, ThreadQuit, ThreadWait 2000]\<rparr>))
    \<and> abort d = Inr (done_code Rejected
           (d\<lparr>espworker := Some (stop p),
               calls := calls d @ [WorkerStop, ThreadQuit, ThreadWait 2000]\<rparr>))
    \<and> \<not> sw_continue (stop p)
    \<and> \<not> continue_flag (worker (stop p))"
  using assms by (simp add: abort_def accept_def stop_quit_wait_def reject_def stop_simps)

text \<open>
  A run in which every driver call returns leaves both flags set; the \<open>accept\<close> that
  follows it clears them, after the same three calls.
\<close>

lemma successful_run_then_accept:
  "sw_continue (snd (execute all_return t0 (fresh w0 True)))
   \<and> continue_flag (worker (snd (execute all_return t0 (fresh w0 True))))
   \<and> map_sum id calls
       (accept (downloading\<lparr>espworker := Some (snd (execute all_return t0 (fresh w0 True)))\<rparr>))
       = Inr [WorkerStop, ThreadQuit, ThreadWait 2000]
   \<and> map_sum id (\<lambda>d. map_option sw_continue (espworker d))
       (accept (downloading\<lparr>espworker := Some (snd (execute all_return t0 (fresh w0 True)))\<rparr>))
       = Inr (Some False)
   \<and> map_sum id (\<lambda>d. map_option (\<lambda>p. continue_flag (worker p)) (espworker d))
       (accept (downloading\<lparr>espworker := Some (snd (execute all_return t0 (fresh w0 True)))\<rparr>))
       = Inr (Some False)
   \<and> map_sum id result
       (accept (downloading\<lparr>espworker := Some (snd (execute all_return t0 (fresh w0 True)))\<rparr>))
       = Inr (Some Accepted)"
  by (simp add: worker_defs example_defs dialog_defs)

text \<open>
  C10. The claim: every exit path of a flashing run performs the teardown that \<open>accept\<close>
  and \<open>abort\<close> perform, \<open>stop()\<close>, \<open>quit()\<close> and \<open>wait(2000)\<close>. The error exit does not:
  \<open>port_error\<close> leads to \<open>error\<close>, which stores the message and closes the dialog as
  rejected without a call on the worker or on its thread, so both continue flags stay set.
\<close>

theorem error_exit_without_teardown:
  "result (error ''timeout'' (run_esptool w0 True downloading)) = Some Rejected
   \<and> calls (error ''timeout'' (run_esptool w0 True downloading)) = []
   \<and> map_option sw_continue (espworker (error ''timeout'' (run_esptool w0 True downloading)))
       = Some True
   \<and> map_option (\<lambda>p. continue_flag (worker p))
       (espworker (error ''timeout'' (run_esptool w0 True downloading))) = Some True
   \<and> map_sum id calls (abort (run_esptool w0 True downloading))
       = Inr [WorkerStop, ThreadQuit, ThreadWait 2000]
   \<and> map_sum id calls (accept (run_esptool w0 True downloading))
       = Inr [WorkerStop, ThreadQuit, ThreadWait 2000]"
  by (simp add: dialog_defs fresh_def w0_def new_worker_def)

section \<open>Properties of the address extractor\<close>

subsection \<open>The matcher finds exactly the texts of the pattern\<close>

lemma first_some_map_None:
  "first_some (map f ks) = None \<longleftrightarrow> (\<forall>k\<in>set ks. f k = None)"
proof (induction ks)
  case Nil
  then show ?case by simp
next
  case (Cons k ks)
  then show ?case by (cases "f k") simp_all
qed

lemma first_some_map_Some:
  "first_some (map f ks) = Some y \<Longrightarrow> \<exists>k\<in>set ks. f k = Some y"
proof (induction ks)
  case Nil
  then show ?case by simp
next
  case (Cons k ks)
  then show ?case by (cases "f k") simp_all
qed

lemma match_here_sound:
  "match_here nd items tx = Some m \<Longrightarrow> matches nd items m \<and> (\<exists>rest. tx = m @ rest)"
proof (induction items arbitrary: tx m)
  case Nil
  then show ?case by simp
next
  case (Cons item items)
  obtain a lo hi where item: "item = (a, lo, hi)"
    by (cases item)
  let ?f = "\<lambda>k. if k \<le> length tx \<and> list_all (atom_ok nd a) (take k tx)
                 then map_option ((@) (take k tx)) (match_here nd items (drop k tx))
                 else None"
  from Cons.prems item have "first_some (map ?f (rev [lo..<Suc hi])) = Some m"
    by simp
  then obtain k where k: "k \<in> set (rev [lo..<Suc hi])" and fk: "?f k = Some m"
    using first_some_map_Some [of ?f "rev [lo..<Suc hi]" m] by blast
  from fk have len: "k \<le> length tx" and ok: "list_all (atom_ok nd a) (take k tx)"
    by (simp_all split: if_splits)
  from fk len ok obtain m' where m': "match_here nd items (drop k tx) = Some m'"
    and m: "m = take k tx @ m'"
    by auto
  from Cons.IH [OF m'] obtain rest where tail: "matches nd items m'" and rest: "drop k tx = m' @ rest"
    by blast
  have tx: "tx = m @ rest"
    using rest m by (metis append.assoc append_take_drop_id)
  have "k \<le> length m \<and> list_all (atom_ok nd a) (take k m) \<and> matches nd items (drop k m)"
    using len ok tail m by simp
  then have "matches nd ((a, lo, hi) # items) m"
    using k by (auto simp: list_ex_iff)
  then show ?case using tx item by blast
qed

lemma match_here_complete:
  "matches nd items m \<Longrightarrow> match_here nd items (m @ rest) \<noteq> None"
proof (induction items arbitrary: m)
  case Nil
  then show ?case by simp
next
  case (Cons item items)
  obtain a lo hi where item: "item = (a, lo, hi)"
    by (cases item)
  let ?tx = "m @ rest"
  let ?f = "\<lambda>k. if k \<le> length ?tx \<and> list_all (atom_ok nd a) (take k ?tx)
                 then map_option ((@) (take k ?tx)) (match_here nd items (drop k ?tx))
                 else None"
  from Cons.prems item obtain k where k: "k \<in> set [lo..<Suc hi]" and len: "k \<le> length m"
    and ok: "list_all (atom_ok nd a) (take k m)" and tail: "matches nd items (drop k m)"
    by (auto simp: list_ex_iff)
  have rec: "match_here nd items (drop k m @ rest) \<noteq> None"
    by (rule Cons.IH [OF tail])
  have "?f k = map_option ((@) (take k m)) (match_here nd items (drop k m @ rest))"
    using len ok by simp
  then have some: "?f k \<noteq> None"
    using rec by simp
  have mem: "k \<in> set (rev [lo..<Suc hi])"
    using k by simp
  have "first_some (map ?f (rev [lo..<Suc hi])) \<noteq> None"
  proof
    assume "first_some (map ?f (rev [lo..<Suc hi])) = None"
    then have "?f k = None"
      using mem by (simp only: first_some_map_None)
    with some show False by blast
  qed
  then show ?case using item by simp
qed

lemma re_search_None:
  "re_search nd pat tx = None \<Longrightarrow> match_here nd pat (drop n tx) = None"
proof (induction tx arbitrary: n)
  case Nil
  then show ?case by simp
next
  case (Cons c cs)
  then show ?case by (cases n) (simp_all split: option.splits)
qed

lemma re_search_Some:
  "re_search nd pat tx = Some m \<Longrightarrow>
     \<exists>n. n \<le> length tx \<and> match_here nd pat (drop n tx) = Some m
         \<and> (\<forall>j<n. match_here nd pat (drop j tx) = None)"
proof (induction tx)
  case Nil
  then show ?case by simp
next
  case (Cons c cs)
  show ?case
  proof (cases "match_here nd pat (c # cs)")
    case (Some m')
    with Cons.prems have "match_here nd pat (drop 0 (c # cs)) = Some m"
      by simp
    then show ?thesis by blast
  next
    case None
    with Cons.prems have "re_search nd pat cs = Some m"
      by simp
    from Cons.IH [OF this] obtain n where n: "n \<le> length cs"
      "match_here nd pat (drop n cs) = Some m" "\<forall>j<n. match_here nd pat (drop j cs) = None"
      by blast
    have "\<forall>j<Suc n. match_here nd pat (drop j (c # cs)) = None"
    proof (intro allI impI)
      fix j assume "j < Suc n"
      then show "match_here nd pat (drop j (c # cs)) = None"
        using None n(3) by (cases j) simp_all
    qed
    then show ?thesis
      using n(1,2) by (intro exI [of _ "Suc n"]) simp
  qed
qed

lemma disjoint_atomsD:
  "disjoint_atoms nd a b \<Longrightarrow> atom_ok nd a c \<Longrightarrow> atom_ok nd b c \<Longrightarrow> False"
  by (cases a; cases b) (auto simp: atom_ok_def)

lemma first_some_single: "first_some [x] = x"
  by (cases x) simp_all

lemma list_all_take_nth:
  "list_all P (take k t) \<Longrightarrow> i < k \<Longrightarrow> k \<le> length t \<Longrightarrow> P (t ! i)"
  by (simp add: list_all_length)

lemma greedy_first:
  "first_some (map f (rev [lo..<Suc hi])) = Some y \<Longrightarrow>
     \<exists>k. lo \<le> k \<and> k \<le> hi \<and> f k = Some y \<and> (\<forall>k'. k < k' \<and> k' \<le> hi \<longrightarrow> f k' = None)"
proof (induction hi)
  case 0
  then show ?case by (cases "lo = 0") (simp_all add: first_some_single)
next
  case (Suc hi)
  show ?case
  proof (cases "lo \<le> Suc hi")
    case False
    then show ?thesis using Suc.prems by simp
  next
    case True
    then have unfold: "rev [lo..<Suc (Suc hi)] = Suc hi # rev [lo..<Suc hi]"
      by simp
    show ?thesis
    proof (cases "f (Suc hi)")
      case (Some z)
      then have "f (Suc hi) = Some y"
        using Suc.prems unfold by simp
      then show ?thesis using True by (intro exI [of _ "Suc hi"]) auto
    next
      case None
      then have "first_some (map f (rev [lo..<Suc hi])) = Some y"
        using Suc.prems unfold by simp
      from Suc.IH [OF this] obtain k where k: "lo \<le> k" "k \<le> hi" "f k = Some y"
        "\<forall>k'. k < k' \<and> k' \<le> hi \<longrightarrow> f k' = None"
        by blast
      have "\<forall>k'. k < k' \<and> k' \<le> Suc hi \<longrightarrow> f k' = None"
      proof (intro allI impI)
        fix k' assume "k < k' \<and> k' \<le> Suc hi"
        then show "f k' = None"
          using k(4) None by (cases "k' = Suc hi") auto
      qed
      then show ?thesis using k(1,2,3) by (intro exI [of _ k]) simp
    qed
  qed
qed

lemma matches_starts:
  assumes "matches nd ((b, lo, hi) # items) x" and "1 \<le> lo"
  shows "x \<noteq> [] \<and> atom_ok nd b (hd x)"
proof -
  from assms(1) obtain k where k: "lo \<le> k" "k \<le> length x" "list_all (atom_ok nd b) (take k x)"
    by (auto simp: list_ex_iff)
  then have "x \<noteq> []" using assms(2) by auto
  moreover have "hd x \<in> set (take k x)"
    using k(1) assms(2) \<open>x \<noteq> []\<close> by (cases x; cases k) auto
  ultimately show ?thesis using k(3) by (simp add: list_all_iff)
qed

lemma match_here_longest:
  "forced nd items \<Longrightarrow> match_here nd items t = Some m \<Longrightarrow> matches nd items m2 \<Longrightarrow>
     t = m2 @ r2 \<Longrightarrow> length m2 \<le> length m"
proof (induction items arbitrary: t m m2 r2)
  case Nil
  then show ?case by simp
next
  case (Cons item items)
  obtain a lo hi where item: "item = (a, lo, hi)"
    by (cases item)
  let ?f = "\<lambda>k. if k \<le> length t \<and> list_all (atom_ok nd a) (take k t)
                 then map_option ((@) (take k t)) (match_here nd items (drop k t))
                 else None"
  from Cons.prems(2) item have "first_some (map ?f (rev [lo..<Suc hi])) = Some m"
    by simp
  from greedy_first [OF this] obtain k where k: "lo \<le> k" "k \<le> hi" and fk: "?f k = Some m"
    and later: "\<forall>k'. k < k' \<and> k' \<le> hi \<longrightarrow> ?f k' = None"
    by blast
  from fk have klen: "k \<le> length t" and kok: "list_all (atom_ok nd a) (take k t)"
    by (simp_all split: if_splits)
  from fk klen kok obtain m' where m': "match_here nd items (drop k t) = Some m'"
    and m: "m = take k t @ m'"
    by auto
  from Cons.prems(3) item obtain k2 where k2: "lo \<le> k2" "k2 \<le> hi" "k2 \<le> length m2"
    and k2ok: "list_all (atom_ok nd a) (take k2 m2)" and tail2: "matches nd items (drop k2 m2)"
    by (auto simp: list_ex_iff)
  have take2: "take k2 t = take k2 m2"
    using Cons.prems(4) k2(3) by simp
  have len_m: "length m = k + length m'"
    using m klen by simp
  show ?case
  proof (cases items)
    case Nil
    then have "drop k2 m2 = []"
      using tail2 by simp
    then have len2: "length m2 = k2"
      using k2(3) by simp
    have some2: "?f k2 \<noteq> None"
      using Nil k2(3) k2ok take2 Cons.prems(4) by simp
    have "\<not> k < k2"
    proof
      assume "k < k2"
      have "?f k2 = None"
        by (rule later [rule_format]) (simp add: \<open>k < k2\<close> k2(2))
      with some2 show False by (elim notE)
    qed
    then show ?thesis using len2 len_m by simp
  next
    case (Cons item' rest)
    obtain b lo' hi' where item': "item' = (b, lo', hi')"
      by (cases item')
    have fr: "lo = hi \<or> (1 \<le> lo' \<and> disjoint_atoms nd a b)" and frest: "forced nd items"
      using Cons.prems(1) item Cons item' by simp_all
    have same: "k = k2"
    proof (cases "lo = hi")
      case True
      then show ?thesis using k k2(1,2) by simp
    next
      case False
      then have one: "1 \<le> lo'" and dis: "disjoint_atoms nd a b"
        using fr by simp_all
      from match_here_sound [OF m'] obtain r where mm: "matches nd items m'"
        and dk: "drop k t = m' @ r"
        by blast
      have items: "items = (b, lo', hi') # rest"
        using Cons item' by simp
      have s1: "m' \<noteq> [] \<and> atom_ok nd b (hd m')"
        by (rule matches_starts [OF mm [unfolded items] one])
      have s2: "drop k2 m2 \<noteq> [] \<and> atom_ok nd b (hd (drop k2 m2))"
        by (rule matches_starts [OF tail2 [unfolded items] one])
      have tk: "k < length t \<and> atom_ok nd b (t ! k)"
      proof -
        have "drop k t \<noteq> []"
          using s1 dk by simp
        then have "k < length t"
          by simp
        moreover have "hd (drop k t) = t ! k"
          using \<open>k < length t\<close> by (simp add: hd_drop_conv_nth)
        then have "hd m' = t ! k"
          using s1 dk by simp
        ultimately show ?thesis using s1 by simp
      qed
      have tk2: "k2 < length m2 \<and> atom_ok nd b (t ! k2)"
      proof -
        have lt: "k2 < length m2"
          using s2 by simp
        then have "hd (drop k2 m2) = m2 ! k2"
          by (simp add: hd_drop_conv_nth)
        also have "\<dots> = t ! k2"
          using lt Cons.prems(4) by (simp add: nth_append)
        finally show ?thesis using s2 lt by simp
      qed
      show ?thesis
      proof (rule ccontr)
        assume neq: "k \<noteq> k2"
        show False
        proof (cases "k < k2")
          case True
          have "k2 \<le> length t"
            using k2(3) Cons.prems(4) by simp
          then have "atom_ok nd a (t ! k)"
            using list_all_take_nth [of "atom_ok nd a" k2 t k] k2ok take2 True by simp
          then show False using dis tk disjoint_atomsD by blast
        next
          case False
          then have lt: "k2 < k" using neq by simp
          have "atom_ok nd a (t ! k2)"
            using list_all_take_nth [of "atom_ok nd a" k t k2] kok lt klen by simp
          then show False using dis tk2 disjoint_atomsD by blast
        qed
      qed
    qed
    have "drop k t = drop k m2 @ r2"
      using Cons.prems(4) k2(3) same by simp
    from Cons.IH [OF frest m' _ this] tail2 same have "length (drop k m2) \<le> length m'"
      by simp
    then show ?thesis using len_m k2(3) same by simp
  qed
qed

subsection \<open>The texts of the pattern\<close>

lemma matches_Lit:
  "matches nd ((Lit c, 1, 1) # items) m \<longleftrightarrow> (\<exists>r. m = c # r \<and> matches nd items r)"
  by (cases m) (auto simp: atom_ok_def)

lemma matches_literal:
  "matches nd (map (\<lambda>c. (Lit c, 1, 1)) cs @ items) m \<longleftrightarrow> (\<exists>r. m = cs @ r \<and> matches nd items r)"
proof (induction cs arbitrary: m)
  case Nil
  then show ?case by simp
next
  case (Cons c cs)
  have "matches nd (map (\<lambda>c. (Lit c, 1, 1)) (c # cs) @ items) m
      \<longleftrightarrow> (\<exists>r. m = c # r \<and> matches nd (map (\<lambda>c. (Lit c, 1, 1)) cs @ items) r)"
    using matches_Lit [of nd c "map (\<lambda>c. (Lit c, 1, 1)) cs @ items" m] by simp
  also have "\<dots> \<longleftrightarrow> (\<exists>r. m = (c # cs) @ r \<and> matches nd items r)"
    by (simp only: Cons.IH) auto
  finally show ?case .
qed

lemma matches_pattern:
  "matches nd (rx_literal @ rx_ip) m \<longleftrightarrow>
     (\<exists>ip. m = code_points ''IP address '' @ ip \<and> matches nd rx_ip ip)"
  unfolding rx_literal_def by (rule matches_literal)

lemma length_rx_literal: "length rx_literal = length (code_points ''IP address '')"
  by (simp add: rx_literal_def)

lemma forced_pattern: "forced nd (rx_literal @ rx_ip)"
  by (simp add: rx_literal_def rx_ip_def code_points_def is_decimal_def)

lemma search_found:
  assumes "re_search nd (rx_literal @ rx_ip) t = Some m"
  shows "\<exists>pre ip post. occurs nd t pre ip post
           \<and> (\<forall>pre2 ip2 post2. occurs nd t pre2 ip2 post2 \<longrightarrow> length pre \<le> length pre2)
           \<and> (\<forall>ip2 post2. occurs nd t pre ip2 post2 \<longrightarrow> length ip2 \<le> length ip)
           \<and> drop (length rx_literal) m = ip"
proof -
  from re_search_Some [OF assms] obtain n where n: "n \<le> length t"
    and here: "match_here nd (rx_literal @ rx_ip) (drop n t) = Some m"
    and before: "\<forall>j<n. match_here nd (rx_literal @ rx_ip) (drop j t) = None"
    by blast
  from match_here_sound [OF here] obtain post where m: "matches nd (rx_literal @ rx_ip) m"
    and rest: "drop n t = m @ post"
    by blast
  from m obtain ip where ip: "m = code_points ''IP address '' @ ip" "matches nd rx_ip ip"
    by (auto simp: matches_pattern)
  have "t = take n t @ code_points ''IP address '' @ ip @ post"
    using rest ip(1) by (metis append.assoc append_take_drop_id)
  then have occ: "occurs nd t (take n t) ip post"
    using ip(2) by (simp add: occurs_def)
  have least: "length (take n t) \<le> length pre2" if "occurs nd t pre2 ip2 post2" for pre2 ip2 post2
  proof (rule ccontr)
    assume "\<not> length (take n t) \<le> length pre2"
    then have less: "length pre2 < n"
      using n by simp
    have "matches nd (rx_literal @ rx_ip) (code_points ''IP address '' @ ip2)"
      using that by (auto simp: matches_pattern occurs_def)
    then have "match_here nd (rx_literal @ rx_ip) ((code_points ''IP address '' @ ip2) @ post2) \<noteq> None"
      by (rule match_here_complete)
    moreover have "drop (length pre2) t = (code_points ''IP address '' @ ip2) @ post2"
      using that by (simp add: occurs_def)
    ultimately show False
      using before less by metis
  qed
  have longest: "length ip2 \<le> length ip" if "occurs nd t (take n t) ip2 post2" for ip2 post2
  proof -
    have m2: "matches nd (rx_literal @ rx_ip) (code_points ''IP address '' @ ip2)"
      using that by (auto simp: matches_pattern occurs_def)
    have "take n t @ drop n t = take n t @ (code_points ''IP address '' @ ip2) @ post2"
      using that by (simp add: occurs_def)
    then have "drop n t = (code_points ''IP address '' @ ip2) @ post2"
      by (simp only: same_append_eq)
    from match_here_longest [OF forced_pattern here m2 this]
    show ?thesis
      using ip(1) by simp
  qed
  have "drop (length rx_literal) m = ip"
    using ip(1) by (simp add: length_rx_literal)
  then show ?thesis
    using occ least longest by blast
qed

lemma search_not_found:
  assumes "re_search nd (rx_literal @ rx_ip) t = None"
  shows "\<not> occurs nd t pre ip post"
proof
  assume occ: "occurs nd t pre ip post"
  then have "matches nd (rx_literal @ rx_ip) (code_points ''IP address '' @ ip)"
    by (auto simp: matches_pattern occurs_def)
  then have "match_here nd (rx_literal @ rx_ip) ((code_points ''IP address '' @ ip) @ post) \<noteq> None"
    by (rule match_here_complete)
  moreover have "drop (length pre) t = (code_points ''IP address '' @ ip) @ post"
    using occ by (simp add: occurs_def)
  ultimately show False
    using re_search_None [OF assms, of "length pre"] by simp
qed

lemma matches_Digit:
  "matches nd ((Digit, lo, hi) # items) m \<longleftrightarrow>
     (\<exists>g r. m = g @ r \<and> lo \<le> length g \<and> length g \<le> hi \<and> list_all (is_decimal nd) g
            \<and> matches nd items r)"
proof
  assume "matches nd ((Digit, lo, hi) # items) m"
  then obtain k where k: "lo \<le> k" "k \<le> hi" "k \<le> length m"
    "list_all (atom_ok nd Digit) (take k m)" "matches nd items (drop k m)"
    by (auto simp: list_ex_iff)
  have "m = take k m @ drop k m \<and> lo \<le> length (take k m) \<and> length (take k m) \<le> hi
      \<and> list_all (is_decimal nd) (take k m) \<and> matches nd items (drop k m)"
    using k by (simp add: atom_ok_def list_all_iff)
  then show "\<exists>g r. m = g @ r \<and> lo \<le> length g \<and> length g \<le> hi \<and> list_all (is_decimal nd) g
            \<and> matches nd items r"
    by blast
next
  assume "\<exists>g r. m = g @ r \<and> lo \<le> length g \<and> length g \<le> hi \<and> list_all (is_decimal nd) g
            \<and> matches nd items r"
  then obtain g r where g: "m = g @ r" "lo \<le> length g" "length g \<le> hi"
    "list_all (is_decimal nd) g" "matches nd items r"
    by blast
  have mem: "length g \<in> set [lo..<Suc hi]"
    using g(2,3) by (cases "length g = hi") auto
  have "length g \<le> length m \<and> list_all (atom_ok nd Digit) (take (length g) m)
      \<and> matches nd items (drop (length g) m)"
    using g by (simp add: atom_ok_def list_all_iff)
  then have "\<exists>k\<in>set [lo..<Suc hi]. k \<le> length m \<and> list_all (atom_ok nd Digit) (take k m)
      \<and> matches nd items (drop k m)"
    using mem by blast
  then show "matches nd ((Digit, lo, hi) # items) m"
    by (simp only: matches.simps list_ex_iff)
qed

lemma matches_group_dot:
  "matches nd ((Digit, 1, 3) # (Lit 46, 1, 1) # items) m \<longleftrightarrow>
     (\<exists>g r. m = g @ 46 # r \<and> ip_group nd g \<and> matches nd items r)"
  by (simp only: matches_Digit matches_Lit ip_group_def) blast

lemma matches_last_group: "matches nd [(Digit, 1, 3)] m \<longleftrightarrow> ip_group nd m"
  by (simp only: matches_Digit matches.simps(1) ip_group_def) auto

lemma matches_rx_ip:
  "matches nd rx_ip ip \<longleftrightarrow>
     (\<exists>a b c d. ip = a @ 46 # b @ 46 # c @ 46 # d
        \<and> ip_group nd a \<and> ip_group nd b \<and> ip_group nd c \<and> ip_group nd d)"
proof
  assume "matches nd rx_ip ip"
  then obtain a r1 where a: "ip = a @ 46 # r1" "ip_group nd a"
    and r1: "matches nd [(Digit, 1, 3), (Lit 46, 1, 1), (Digit, 1, 3), (Lit 46, 1, 1), (Digit, 1, 3)] r1"
    unfolding rx_ip_def matches_group_dot by blast
  from r1 obtain b r2 where b: "r1 = b @ 46 # r2" "ip_group nd b"
    and r2: "matches nd [(Digit, 1, 3), (Lit 46, 1, 1), (Digit, 1, 3)] r2"
    unfolding matches_group_dot by blast
  from r2 obtain c d where c: "r2 = c @ 46 # d" "ip_group nd c"
    and d: "matches nd [(Digit, 1, 3)] d"
    unfolding matches_group_dot by blast
  have "ip = a @ 46 # b @ 46 # c @ 46 # d"
    using a(1) b(1) c(1) by simp
  moreover have "ip_group nd d"
    using d by (simp only: matches_last_group)
  ultimately show "\<exists>a b c d. ip = a @ 46 # b @ 46 # c @ 46 # d
        \<and> ip_group nd a \<and> ip_group nd b \<and> ip_group nd c \<and> ip_group nd d"
    using a(2) b(2) c(2) by blast
next
  assume "\<exists>a b c d. ip = a @ 46 # b @ 46 # c @ 46 # d
        \<and> ip_group nd a \<and> ip_group nd b \<and> ip_group nd c \<and> ip_group nd d"
  then obtain a b c d where ip: "ip = a @ 46 # b @ 46 # c @ 46 # d"
    and g: "ip_group nd a" "ip_group nd b" "ip_group nd c" "ip_group nd d"
    by blast
  have "matches nd [(Digit, 1, 3)] d"
    using g(4) by (simp only: matches_last_group)
  then have "matches nd [(Digit, 1, 3), (Lit 46, 1, 1), (Digit, 1, 3)] (c @ 46 # d)"
    unfolding matches_group_dot using g(3) by blast
  then have "matches nd [(Digit, 1, 3), (Lit 46, 1, 1), (Digit, 1, 3), (Lit 46, 1, 1), (Digit, 1, 3)]
      (b @ 46 # c @ 46 # d)"
    unfolding matches_group_dot using g(2) by blast
  then show "matches nd rx_ip ip"
    unfolding rx_ip_def matches_group_dot ip using g(1) by blast
qed

subsection \<open>What a read searches, and what it keeps\<close>

text \<open>
  C6, as stated, fails: the claim has the extractor accumulate all incoming bytes, so that
  the pattern is found however many chunks it is split across. The address arriving in
  three chunks is not found, the port stays open and only the last chunk is kept, while the
  same bytes arriving in one chunk are found.
\<close>

theorem pattern_in_three_chunks_is_missed:
  "sb (listen no_digits [''IP addr'', ''ess 192.168'', ''.1.5'' @ [CHR 13, CHR 10]] listening) = None
   \<and> port_is_open
       (listen no_digits [''IP addr'', ''ess 192.168'', ''.1.5'' @ [CHR 13, CHR 10]] listening)
   \<and> previous_reply
       (listen no_digits [''IP addr'', ''ess 192.168'', ''.1.5'' @ [CHR 13, CHR 10]] listening)
       = ''.1.5'' @ [CHR 13, CHR 10]
   \<and> sb (listen no_digits [''IP addr'' @ ''ess 192.168'' @ ''.1.5'' @ [CHR 13, CHR 10]] listening)
       = Some (code_points ''Device IP: 192.168.1.5'')"
  by code_simp

text \<open>
  C6, amended: a read searches a window of two chunks, the chunk kept from before followed
  by the chunk just read, decoded as UTF-8 and with its CR LF pairs removed. If the window
  does not decode, nothing changes. If the pattern occurs in the window (the literal
  \<open>IP address\<close>, a space, and four groups of one to three decimal digits separated by dots,
  see \<open>matches_rx_ip\<close>), the status bar shows \<open>Device IP:\<close> with the address of the
  first match, and the port is closed: the match is the occurrence that starts leftmost
  and, of those that start there, the longest (the last group takes as many digits as it
  can, up to three). If the pattern does not occur, the chunk just read replaces the chunk
  kept: the bytes of earlier chunks are dropped, not accumulated.
\<close>

theorem showCurrentIP_window:
  "case utf8_decode (map of_char (previous_reply self @ current_reply)) of
     None \<Rightarrow> showCurrentIP nd current_reply self = self
   | Some tx \<Rightarrow>
       if \<exists>pre ip post. occurs nd (replace_crlf tx) pre ip post
       then \<exists>pre ip post. occurs nd (replace_crlf tx) pre ip post
              \<and> (\<forall>pre2 ip2 post2. occurs nd (replace_crlf tx) pre2 ip2 post2
                     \<longrightarrow> length pre \<le> length pre2)
              \<and> (\<forall>ip2 post2. occurs nd (replace_crlf tx) pre ip2 post2
                     \<longrightarrow> length ip2 \<le> length ip)
              \<and> showCurrentIP nd current_reply self =
                  self\<lparr>port_is_open := False, sb := Some (code_points ''Device IP: '' @ ip)\<rparr>
       else showCurrentIP nd current_reply self = self\<lparr>previous_reply := current_reply\<rparr>"
proof (cases "utf8_decode (map of_char (previous_reply self @ current_reply))")
  case None
  then show ?thesis by (simp add: showCurrentIP_def)
next
  case (Some tx)
  show ?thesis
  proof (cases "re_search nd (rx_literal @ rx_ip) (replace_crlf tx)")
    case None
    have "\<not> (\<exists>pre ip post. occurs nd (replace_crlf tx) pre ip post)"
      using search_not_found [OF None] by blast
    then show ?thesis
      using Some None by (simp add: showCurrentIP_def)
  next
    case found: (Some m)
    from search_found [OF found] obtain pre ip post
      where occ: "occurs nd (replace_crlf tx) pre ip post"
        and least: "\<forall>pre2 ip2 post2. occurs nd (replace_crlf tx) pre2 ip2 post2
                       \<longrightarrow> length pre \<le> length pre2"
        and longest: "\<forall>ip2 post2. occurs nd (replace_crlf tx) pre ip2 post2
                       \<longrightarrow> length ip2 \<le> length ip"
        and ip: "drop (length rx_literal) m = ip"
      by blast
    have step: "showCurrentIP nd current_reply self =
        self\<lparr>port_is_open := False, sb := Some (code_points ''Device IP: '' @ ip)\<rparr>"
      using Some found ip by (simp add: showCurrentIP_def)
    have "occurs nd (replace_crlf tx) pre ip post
              \<and> (\<forall>pre2 ip2 post2. occurs nd (replace_crlf tx) pre2 ip2 post2
                     \<longrightarrow> length pre \<le> length pre2)
              \<and> (\<forall>ip2 post2. occurs nd (replace_crlf tx) pre ip2 post2
                     \<longrightarrow> length ip2 \<le> length ip)
              \<and> showCurrentIP nd current_reply self =
                  self\<lparr>port_is_open := False, sb := Some (code_points ''Device IP: '' @ ip)\<rparr>"
      using occ least longest step by (intro conjI)
    then have "\<exists>pre ip post. occurs nd (replace_crlf tx) pre ip post
              \<and> (\<forall>pre2 ip2 post2. occurs nd (replace_crlf tx) pre2 ip2 post2
                     \<longrightarrow> length pre \<le> length pre2)
              \<and> (\<forall>ip2 post2. occurs nd (replace_crlf tx) pre ip2 post2
                     \<longrightarrow> length ip2 \<le> length ip)
              \<and> showCurrentIP nd current_reply self =
                  self\<lparr>port_is_open := False, sb := Some (code_points ''Device IP: '' @ ip)\<rparr>"
      by (intro exI)
    moreover have "\<exists>pre ip post. occurs nd (replace_crlf tx) pre ip post"
      using occ by blast
    ultimately show ?thesis
      using Some by simp
  qed
qed

theorem showCurrentIP_window_witness:
  "showCurrentIP no_digits ''IP addr'' listening = one_chunk_read
   \<and> utf8_decode (map of_char (previous_reply one_chunk_read @ next_chunk)) =
       Some (code_points (''IP address 192.168.1.123'' @ [CHR 13, CHR 10]))
   \<and> replace_crlf (code_points (''IP address 192.168.1.123'' @ [CHR 13, CHR 10])) =
       code_points ''IP address 192.168.1.123''
   \<and> occurs no_digits (code_points ''IP address 192.168.1.123'')
       [] (code_points ''192.168.1.1'') (code_points ''23'')
   \<and> occurs no_digits (code_points ''IP address 192.168.1.123'')
       [] (code_points ''192.168.1.123'') []
   \<and> (\<exists>ip. 13 \<le> length ip
         \<and> showCurrentIP no_digits next_chunk one_chunk_read =
             one_chunk_read\<lparr>port_is_open := False, sb := Some (code_points ''Device IP: '' @ ip)\<rparr>)
   \<and> showCurrentIP no_digits next_chunk one_chunk_read =
       one_chunk_read\<lparr>port_is_open := False,
         sb := Some (code_points ''Device IP: 192.168.1.123'')\<rparr>"
proof -
  let ?t = "code_points ''IP address 192.168.1.123''"
  have first: "showCurrentIP no_digits ''IP addr'' listening = one_chunk_read"
    by code_simp
  have dec: "utf8_decode (map of_char (previous_reply one_chunk_read @ next_chunk)) =
       Some (code_points (''IP address 192.168.1.123'' @ [CHR 13, CHR 10]))"
    by code_simp
  have crlf: "replace_crlf (code_points (''IP address 192.168.1.123'' @ [CHR 13, CHR 10])) = ?t"
    by code_simp
  have short: "occurs no_digits ?t [] (code_points ''192.168.1.1'') (code_points ''23'')"
    by code_simp
  have full: "occurs no_digits ?t [] (code_points ''192.168.1.123'') []"
    by code_simp
  have shown: "showCurrentIP no_digits next_chunk one_chunk_read =
       one_chunk_read\<lparr>port_is_open := False,
         sb := Some (code_points ''Device IP: 192.168.1.123'')\<rparr>"
    by code_simp
  have ex: "\<exists>pre ip post. occurs no_digits ?t pre ip post"
    using full by (intro exI)
  have "\<exists>pre ip post. occurs no_digits ?t pre ip post
          \<and> (\<forall>pre2 ip2 post2. occurs no_digits ?t pre2 ip2 post2 \<longrightarrow> length pre \<le> length pre2)
          \<and> (\<forall>ip2 post2. occurs no_digits ?t pre ip2 post2 \<longrightarrow> length ip2 \<le> length ip)
          \<and> showCurrentIP no_digits next_chunk one_chunk_read =
              one_chunk_read\<lparr>port_is_open := False, sb := Some (code_points ''Device IP: '' @ ip)\<rparr>"
    using showCurrentIP_window
      [where self = one_chunk_read and current_reply = next_chunk and nd = no_digits]
    by (simp only: dec crlf option.case ex if_True)
  then obtain pre ip post where
    least: "\<forall>pre2 ip2 post2. occurs no_digits ?t pre2 ip2 post2 \<longrightarrow> length pre \<le> length pre2"
    and longest: "\<forall>ip2 post2. occurs no_digits ?t pre ip2 post2 \<longrightarrow> length ip2 \<le> length ip"
    and step: "showCurrentIP no_digits next_chunk one_chunk_read =
        one_chunk_read\<lparr>port_is_open := False, sb := Some (code_points ''Device IP: '' @ ip)\<rparr>"
    by (elim exE conjE)
  have "length pre \<le> length ([] :: nat list)"
    by (rule least [rule_format, OF full])
  then have pre: "pre = []"
    by simp
  have "length (code_points ''192.168.1.123'') \<le> length ip"
    by (rule longest [unfolded pre, rule_format, OF full])
  then have "13 \<le> length ip"
    by (simp add: code_points_def)
  then have "\<exists>ip. 13 \<le> length ip
         \<and> showCurrentIP no_digits next_chunk one_chunk_read =
             one_chunk_read\<lparr>port_is_open := False, sb := Some (code_points ''Device IP: '' @ ip)\<rparr>"
    using step by (intro exI [of _ ip] conjI)
  then show ?thesis
    using first dec crlf short full shown by (intro conjI)
qed

end
